theory Spec2Isabelle
  imports Main "HOL-Library.Word"
begin

section \<open>Values of the Python program\<close>

text \<open>
  A Python \<open>str\<close> is a sequence of Unicode code points; slicing, \<open>len\<close> and the
  regular expressions of the program all work on code points, so a string is a list of
  code points here. String literals of the program are written with \<open>lit\<close>.
  \<open>bytes\<close> is a list of 8-bit words.
\<close>

type_synonym codepoint = nat
type_synonym str = "codepoint list"
type_synonym bytes = "8 word list"

definition lit :: "string \<Rightarrow> str" where
  "lit s = map of_char s"

text \<open>
  The exceptions the modelled code can raise. \<open>HTTPException\<close> carries the status code
  and the detail of \<open>app.py\<close>; \<open>ValueError\<close> its message; \<open>UnicodeDecodeError\<close> is
  what \<open>bytes.decode\<close> raises; \<open>BackendError\<close> stands for any exception raised
  inside an external service (vector store, chat model, document parser), carrying its text.
\<close>

datatype error =
    HTTPException nat str
  | ValueError str
  | UnicodeDecodeError
  | BackendError str

section \<open>utils.py: chunk_text\<close>

text \<open>
  \<open>range(start, stop, step)\<close> for a positive step, as the list of its values.
\<close>

function py_range :: "nat \<Rightarrow> nat \<Rightarrow> nat \<Rightarrow> nat list" where
  "py_range i stop step =
     (if 0 < step \<and> i < stop then i # py_range (i + step) stop step else [])"
  by pat_completeness auto
termination
  by (relation "measure (\<lambda>(i, stop, step). stop - i)") auto

declare py_range.simps [simp del]

text \<open>The slice \<open>text[i:j]\<close> for \<open>0 \<le> i \<le> j\<close>: it stops at the end of the text.\<close>

definition py_slice :: "'a list \<Rightarrow> nat \<Rightarrow> nat \<Rightarrow> 'a list" where
  "py_slice text i j = take (j - i) (drop i text)"

text \<open>
  \<open>chunks = [text[i:i + chunk_size] for i in range(0, len(text), chunk_size)]\<close>.
  \<open>chunk_size\<close> is a Python \<open>int\<close>: \<open>range\<close> raises \<open>ValueError\<close> on a zero step,
  and is empty for a negative step (its start \<open>0\<close> is not above its stop).
\<close>

definition chunk_text :: "'a list \<Rightarrow> int \<Rightarrow> error + 'a list list" where
  "chunk_text text chunk_size =
     (if chunk_size = 0 then Inl (ValueError (lit ''range() arg 3 must not be zero''))
      else if chunk_size < 0 then Inr []
      else Inr (map (\<lambda>i. py_slice text i (i + nat chunk_size))
                    (py_range 0 (length text) (nat chunk_size))))"

text \<open>The default of the source: \<open>chunk_size: int = 3500\<close>.\<close>

definition default_chunk_size :: int where
  "default_chunk_size = 3500"

section \<open>utils.py: preprocess_text\<close>

text \<open>
  The characters \<open>\s\<close> matches in a \<open>str\<close> pattern, which are also the characters
  \<open>str.strip()\<close> removes: the ASCII ones (tab to carriage return, the separators
  \<open>0x1C\<close> to \<open>0x1F\<close>, the space) and the other whitespace of Unicode.
\<close>

definition is_space :: "codepoint \<Rightarrow> bool" where
  "is_space c =
     ((9 \<le> c \<and> c \<le> 13) \<or> (28 \<le> c \<and> c \<le> 32) \<or> c = 133 \<or> c = 160 \<or> c = 5760 \<or>
      (8192 \<le> c \<and> c \<le> 8202) \<or> c = 8232 \<or> c = 8233 \<or> c = 8239 \<or> c = 8287 \<or>
      c = 12288)"

text \<open>
  \<open>\w\<close> matches the alphanumeric characters of Unicode (\<open>str.isalnum\<close>) and the
  underscore. The table of alphanumeric characters is not part of the program: it is the
  parameter \<open>isalnum\<close>. \<open>ascii_isalnum\<close> is that table on ASCII text.
\<close>

definition is_word :: "(codepoint \<Rightarrow> bool) \<Rightarrow> codepoint \<Rightarrow> bool" where
  "is_word isalnum c = (isalnum c \<or> c = 95)"

definition ascii_isalnum :: "codepoint \<Rightarrow> bool" where
  "ascii_isalnum c = ((48 \<le> c \<and> c \<le> 57) \<or> (65 \<le> c \<and> c \<le> 90) \<or> (97 \<le> c \<and> c \<le> 122))"

text \<open>
  \<open>re.sub(r'\s+', ' ', text)\<close>: every maximal run of whitespace becomes one space.
\<close>

function re_sub_spaces :: "str \<Rightarrow> str" where
  "re_sub_spaces [] = []"
| "re_sub_spaces (c # cs) =
     (if is_space c then 32 # re_sub_spaces (dropWhile is_space cs)
      else c # re_sub_spaces cs)"
  by pat_completeness auto
termination
  by (relation "measure length") (auto simp: length_dropWhile_le less_Suc_eq_le)

text \<open>\<open>text.strip()\<close>: leading and trailing whitespace is removed.\<close>

definition str_strip :: "str \<Rightarrow> str" where
  "str_strip text = rev (dropWhile is_space (rev (dropWhile is_space text)))"

text \<open>
  \<open>re.sub(r'[^\w\s]', '', text)\<close>: every character that is neither a word character
  nor whitespace is deleted.
\<close>

definition re_sub_punct :: "(codepoint \<Rightarrow> bool) \<Rightarrow> str \<Rightarrow> str" where
  "re_sub_punct isalnum text = filter (\<lambda>c. is_word isalnum c \<or> is_space c) text"

definition preprocess_text :: "(codepoint \<Rightarrow> bool) \<Rightarrow> str \<Rightarrow> str" where
  "preprocess_text isalnum text =
     (let text1 = re_sub_spaces text;
          text2 = str_strip text1
      in re_sub_punct isalnum text2)"

section \<open>utils.py: the extractors\<close>

text \<open>
  \<open>bytes.decode("utf-8")\<close> with the default strict error handling: the decoder reads
  one code point after another and raises \<open>UnicodeDecodeError\<close> (here: returns
  \<open>None\<close>) on a byte that cannot start a sequence, on a missing or wrong continuation
  byte, on an overlong form, on a surrogate and on a value above \<open>0x10FFFF\<close>.
\<close>

definition is_cont :: "nat \<Rightarrow> bool" where
  "is_cont b = (128 \<le> b \<and> b < 192)"

text \<open>
  The value that a lead byte and its continuation bytes stand for: the low bits of the
  lead byte, then six bits of every continuation byte.
\<close>

definition seq2 :: "nat \<Rightarrow> nat \<Rightarrow> codepoint" where
  "seq2 b0 b1 = (b0 - 192) * 64 + (b1 - 128)"

definition seq3 :: "nat \<Rightarrow> nat \<Rightarrow> nat \<Rightarrow> codepoint" where
  "seq3 b0 b1 b2 = (b0 - 224) * 4096 + (b1 - 128) * 64 + (b2 - 128)"

definition seq4 :: "nat \<Rightarrow> nat \<Rightarrow> nat \<Rightarrow> nat \<Rightarrow> codepoint" where
  "seq4 b0 b1 b2 b3 = (b0 - 240) * 262144 + (b1 - 128) * 4096 + (b2 - 128) * 64 + (b3 - 128)"

fun utf8_decode_from :: "nat list \<Rightarrow> str option" where
  "utf8_decode_from [] = Some []"
| "utf8_decode_from (b0 # bs) =
     (if b0 < 128 then map_option (Cons b0) (utf8_decode_from bs)
      else if b0 < 192 then None
      else if b0 < 224 then
        (case bs of
           b1 # r \<Rightarrow>
             (let c = seq2 b0 b1
              in if is_cont b1 \<and> 128 \<le> c then map_option (Cons c) (utf8_decode_from r)
                 else None)
         | _ \<Rightarrow> None)
      else if b0 < 240 then
        (case bs of
           b1 # b2 # r \<Rightarrow>
             (let c = seq3 b0 b1 b2
              in if is_cont b1 \<and> is_cont b2 \<and> 2048 \<le> c \<and> (c < 55296 \<or> 57344 \<le> c)
                 then map_option (Cons c) (utf8_decode_from r)
                 else None)
         | _ \<Rightarrow> None)
      else if b0 < 248 then
        (case bs of
           b1 # b2 # b3 # r \<Rightarrow>
             (let c = seq4 b0 b1 b2 b3
              in if is_cont b1 \<and> is_cont b2 \<and> is_cont b3 \<and> 65536 \<le> c \<and> c < 1114112
                 then map_option (Cons c) (utf8_decode_from r)
                 else None)
         | _ \<Rightarrow> None)
      else None)"

definition utf8_decode :: "bytes \<Rightarrow> str option" where
  "utf8_decode b = utf8_decode_from (map unat b)"

text \<open>
  \<open>extract_txt_text\<close>: \<open>text = txt_file.decode("utf-8")\<close>, with nothing around it
  that catches the decoder's exception.
\<close>

definition extract_txt_text :: "bytes \<Rightarrow> error + str" where
  "extract_txt_text txt_file =
     (case utf8_decode txt_file of None \<Rightarrow> Inl UnicodeDecodeError | Some text \<Rightarrow> Inr text)"

text \<open>
  \<open>extract_pdf_text\<close>: the PDF library is outside the program. \<open>fitz_pages\<close> is what
  it gives for a byte stream: the text of each page, or the text of the exception it
  raised. The source catches every exception and raises \<open>ValueError\<close> instead.
\<close>

definition extract_pdf_text :: "(bytes \<Rightarrow> str + str list) \<Rightarrow> bytes \<Rightarrow> error + str" where
  "extract_pdf_text fitz_pages pdf_file =
     (case fitz_pages pdf_file of
        Inl e \<Rightarrow> Inl (ValueError (lit ''Error processing PDF file: '' @ e))
      | Inr pages \<Rightarrow> Inr (concat pages))"

text \<open>
  \<open>extract_docx_text\<close>: \<open>docx_paragraphs\<close> is the text of each paragraph of the
  document, or the text of the exception the library raised, which is not caught: every
  paragraph is followed by a newline.
\<close>

definition extract_docx_text :: "(bytes \<Rightarrow> str + str list) \<Rightarrow> bytes \<Rightarrow> error + str" where
  "extract_docx_text docx_paragraphs docx_file =
     (case docx_paragraphs docx_file of
        Inl e \<Rightarrow> Inl (BackendError e)
      | Inr paras \<Rightarrow> Inr (concat (map (\<lambda>para. para @ lit ''\<newline>'') paras)))"

section \<open>The external services\<close>

text \<open>
  \<open>Document\<close> of the vector store's library, with the one metadata entry the program
  writes (\<open>{"source": file.filename}\<close>).
\<close>

record document =
  page_content :: str
  source :: str

text \<open>
  Every call the program makes to a service outside it is recorded, in order, in a log of
  events: so "the backend was not called" is a statement about the log.
\<close>

datatype event =
    ExtractPdf bytes
  | ExtractDocx bytes
  | ExtractTxt bytes
  | AddDocuments "document list" "str list"
  | SimilaritySearch str nat
  | ChatCompletion str
  | SendText str

text \<open>
  The services themselves are parameters. Each one answers a call with a value or with
  an exception; its answer may depend on everything that happened before (the log), since
  the vector store changes with every upload and the chat model need not answer the same
  prompt twice in the same way.
  \<^item> \<open>fitz_pages\<close>, \<open>docx_paragraphs\<close>: the document parsers (see above);
  \<^item> \<open>isalnum\<close>: the table of alphanumeric characters of Unicode;
  \<^item> \<open>uuid4\<close>: the identifiers \<open>str(uuid4())\<close> gives, by the number of the draw;
  \<^item> \<open>add_documents\<close>: \<open>Config.pinecone_vector_store_client.add_documents\<close>;
  \<^item> \<open>similarity_search\<close>: \<open>Config.pinecone_vector_store_client.similarity_search\<close>;
  \<^item> \<open>chat_client\<close>: \<open>Config.chat_client\<close> followed by the output parser, from the
    prompt to the text of the answer.
\<close>

record services =
  fitz_pages :: "bytes \<Rightarrow> str + str list"
  docx_paragraphs :: "bytes \<Rightarrow> str + str list"
  isalnum :: "codepoint \<Rightarrow> bool"
  uuid4 :: "nat \<Rightarrow> str"
  add_documents :: "event list \<Rightarrow> document list \<Rightarrow> str list \<Rightarrow> error + str list"
  similarity_search :: "event list \<Rightarrow> str \<Rightarrow> nat \<Rightarrow> error + document list"
  chat_client :: "event list \<Rightarrow> str \<Rightarrow> error + str"

section \<open>utils.py: llm_chat_chain\<close>

text \<open>
  The template of the source with its three fields filled in. The chain maps the input to
  the fields, formats the prompt, calls the chat model and parses its answer; there is
  no other step, and in particular no test of the prompt's length.
\<close>

definition prompt_of :: "str \<Rightarrow> str \<Rightarrow> str \<Rightarrow> str" where
  "prompt_of query context history =
     lit ''Answer the question based only on the following context and history:\<newline>''
     @ lit ''    Context : '' @ context @ lit ''\<newline>''
     @ lit ''    History : '' @ history @ lit ''\<newline>''
     @ lit ''\<newline>''
     @ lit ''    Question: '' @ query @ lit ''\<newline>''
     @ lit ''    ''"

definition llm_chat_chain ::
  "services \<Rightarrow> str \<Rightarrow> str \<Rightarrow> str \<Rightarrow> event list \<Rightarrow> (error + str) \<times> event list" where
  "llm_chat_chain svc query context history log =
     (let prompt = prompt_of query context history;
          response = chat_client svc log prompt
      in (response, log @ [ChatCompletion prompt]))"

section \<open>app.py: upload_file\<close>

text \<open>\<open>s.endswith(suffix)\<close>.\<close>

definition endswith :: "'a list \<Rightarrow> 'a list \<Rightarrow> bool" where
  "endswith s suffix =
     (length suffix \<le> length s \<and> drop (length s - length suffix) s = suffix)"

record upload_response =
  message :: str
  stored_chunks_ids :: "str list"

text \<open>
  Lines 72 to 80: the extractor is chosen by the end of the file's name, in the order of
  the source; a name with none of the three endings raises \<open>HTTPException\<close> 400 and no
  extractor runs.
\<close>

definition extract_by_name ::
  "services \<Rightarrow> str \<Rightarrow> bytes \<Rightarrow> event list \<Rightarrow> (error + str) \<times> event list" where
  "extract_by_name svc filename file_content log =
     (if endswith filename (lit ''.pdf'') then
        (extract_pdf_text (fitz_pages svc) file_content, log @ [ExtractPdf file_content])
      else if endswith filename (lit ''.docx'') then
        (extract_docx_text (docx_paragraphs svc) file_content, log @ [ExtractDocx file_content])
      else if endswith filename (lit ''.txt'') then
        (extract_txt_text file_content, log @ [ExtractTxt file_content])
      else (Inl (HTTPException 400 (lit ''Unsupported file type'')), log))"

text \<open>
  Lines 82 to 105: the text is preprocessed and cut into chunks of the default size, one
  document and one fresh identifier are made per chunk, and all of them are stored with
  one call. An exception of any step ends the request.
\<close>

definition store_text ::
  "services \<Rightarrow> str \<Rightarrow> str \<Rightarrow> event list \<Rightarrow> (error + upload_response) \<times> event list" where
  "store_text svc filename extracted_text log =
     (let preprocessed_text = preprocess_text (isalnum svc) extracted_text
      in case chunk_text preprocessed_text default_chunk_size of
           Inl e \<Rightarrow> (Inl e, log)
         | Inr text_chunks \<Rightarrow>
             (let documents = map (\<lambda>chunk. \<lparr>page_content = chunk, source = filename\<rparr>) text_chunks;
                  document_ids = map (uuid4 svc) [0..<length text_chunks];
                  log' = log @ [AddDocuments documents document_ids]
              in case add_documents svc log documents document_ids of
                   Inl e \<Rightarrow> (Inl e, log')
                 | Inr response \<Rightarrow>
                     (Inr \<lparr>message = lit ''File uploaded, content extracted, and stored in Pinecone successfully!'',
                           stored_chunks_ids = response\<rparr>, log')))"

definition upload_file ::
  "services \<Rightarrow> str \<Rightarrow> bytes \<Rightarrow> event list \<Rightarrow> (error + upload_response) \<times> event list" where
  "upload_file svc filename file_content log =
     (case extract_by_name svc filename file_content log of
        (Inl e, log') \<Rightarrow> (Inl e, log')
      | (Inr extracted_text, log') \<Rightarrow> store_text svc filename extracted_text log')"

section \<open>app.py: chat\<close>

text \<open>
  \<open>history_data: Dict[str, str]\<close>. A Python dictionary keeps its keys in the order of
  their first insertion, and the loop reads it in that order (\<open>history_data.items()\<close>):
  it is a list of pairs with distinct keys. \<open>dict_set d k v\<close> is \<open>d[k] = v\<close>: the
  value of a key that is present is replaced where it stands, a new key goes to the end.
\<close>

type_synonym dict = "(str \<times> str) list"

fun dict_set :: "dict \<Rightarrow> str \<Rightarrow> str \<Rightarrow> dict" where
  "dict_set [] k v = [(k, v)]"
| "dict_set ((k', v') # d) k v =
     (if k' = k then (k', v) # d else (k', v') # dict_set d k v)"

text \<open>\<open>str(count)\<close> for a count that is not negative: its decimal digits.\<close>

function str_of_nat :: "nat \<Rightarrow> str" where
  "str_of_nat n = (if n < 10 then [48 + n] else str_of_nat (n div 10) @ [48 + n mod 10])"
  by pat_completeness auto
termination
  by (relation "measure id") auto

declare str_of_nat.simps [simp del]

text \<open>\<open>enumerate(xs, 1)\<close>.\<close>

definition enumerate1 :: "'a list \<Rightarrow> (nat \<times> 'a) list" where
  "enumerate1 xs = zip [1..<Suc (length xs)] xs"

text \<open>
  Lines 154 to 156 and 159 to 161: the context and the history as text, built by
  appending one formatted entry per search result and per stored question.
\<close>

definition build_context :: "document list \<Rightarrow> str" where
  "build_context results =
     concat (map (\<lambda>(count, res).
                    lit ''Context '' @ str_of_nat count @ lit '': '' @ page_content res
                    @ lit ''\<newline>\<newline>'')
                 (enumerate1 results))"

definition build_history :: "dict \<Rightarrow> str" where
  "build_history history_data =
     concat (map (\<lambda>(count, (question, response)).
                    lit ''('' @ str_of_nat count @ lit '')\<newline>Question: '' @ question
                    @ lit ''\<newline>Response: '' @ response @ lit ''\<newline>\<newline>'')
                 (enumerate1 history_data))"

text \<open>
  The state of one connection: its dictionary, a local variable of \<open>chat\<close> that starts
  empty, and the log of the calls made so far.
\<close>

record chat_state =
  history_data :: dict
  events :: "event list"

text \<open>
  One pass through the body of \<open>while True\<close> for a received \<open>message\<close>, here \<open>msg\<close>
  (lines 147 to 170). Nothing in the body catches an exception of the search or of the chain: it leaves
  the loop at the point where it is raised, before the statements that follow.
\<close>

definition chat_turn :: "services \<Rightarrow> chat_state \<Rightarrow> str \<Rightarrow> (error + str) \<times> chat_state" where
  "chat_turn svc st msg =
     (let log1 = events st @ [SimilaritySearch msg 2]
      in case similarity_search svc (events st) msg 2 of
           Inl e \<Rightarrow> (Inl e, st\<lparr>events := log1\<rparr>)
         | Inr results \<Rightarrow>
             (let context = build_context results;
                  history = build_history (history_data st)
              in case llm_chat_chain svc msg context history log1 of
                   (Inl e, log2) \<Rightarrow> (Inl e, st\<lparr>events := log2\<rparr>)
                 | (Inr response, log2) \<Rightarrow>
                     (Inr response,
                      \<lparr>history_data = dict_set (history_data st) msg response,
                       events = log2 @ [SendText response]\<rparr>)))"

text \<open>
  The loop, over the text frames the client sends before it disconnects. At the end of the
  frames \<open>receive_text\<close> raises \<open>WebSocketDisconnect\<close>, which \<open>chat\<close> catches: the
  function returns normally. Any other exception ends it with that exception. The list of
  open connections that \<open>WebsocketManager\<close> keeps plays no part in what the loop
  computes and is left out.
\<close>

fun chat_loop :: "services \<Rightarrow> chat_state \<Rightarrow> str list \<Rightarrow> (error + unit) \<times> chat_state" where
  "chat_loop svc st [] = (Inr (), st)"
| "chat_loop svc st (frame # rest) =
     (case chat_turn svc st frame of
        (Inl e, st') \<Rightarrow> (Inl e, st')
      | (Inr response, st') \<Rightarrow> chat_loop svc st' rest)"

definition chat :: "services \<Rightarrow> event list \<Rightarrow> str list \<Rightarrow> (error + unit) \<times> chat_state" where
  "chat svc log frames = chat_loop svc \<lparr>history_data = [], events = log\<rparr> frames"

section \<open>Reading the log\<close>

text \<open>The number of calls of the chat model that a log records.\<close>

definition is_completion :: "event \<Rightarrow> bool" where
  "is_completion e = (case e of ChatCompletion p \<Rightarrow> True | _ \<Rightarrow> False)"

definition completion_calls :: "event list \<Rightarrow> nat" where
  "completion_calls log = length (filter is_completion log)"

text \<open>
  The keys of a dictionary after \<open>d[k] = v\<close>, given the keys before: \<open>add_key\<close>.
\<close>

definition add_key :: "str \<Rightarrow> str list \<Rightarrow> str list" where
  "add_key k ks = (if k \<in> set ks then ks else ks @ [k])"

section \<open>Whitespace that is already normal\<close>

text \<open>\<open>no_double t\<close>: no two whitespace characters of \<open>t\<close> stand side by side.\<close>

fun no_double :: "str \<Rightarrow> bool" where
  "no_double [] = True"
| "no_double [c] = True"
| "no_double (c # d # r) = (\<not> (is_space c \<and> is_space d) \<and> no_double (d # r))"

section \<open>UTF-8 as the standard defines it\<close>

text \<open>
  The encoding side of UTF-8, against which the decoder is judged. The characters that can
  be encoded are the scalar values of Unicode: the code points up to \<open>0x10FFFF\<close> that
  are not surrogates. Each one has one encoding, of one to four bytes. A byte string is
  valid UTF-8 when it is the encoding of a sequence of scalar values.
\<close>

definition is_scalar :: "codepoint \<Rightarrow> bool" where
  "is_scalar c = (c < 55296 \<or> (57344 \<le> c \<and> c < 1114112))"

definition utf8_encode_cp :: "codepoint \<Rightarrow> nat list" where
  "utf8_encode_cp c =
     (if c < 128 then [c]
      else if c < 2048 then [192 + c div 64, 128 + c mod 64]
      else if c < 65536 then [224 + c div 4096, 128 + c div 64 mod 64, 128 + c mod 64]
      else [240 + c div 262144, 128 + c div 4096 mod 64, 128 + c div 64 mod 64,
            128 + c mod 64])"

definition utf8_encode :: "str \<Rightarrow> nat list" where
  "utf8_encode t = concat (map utf8_encode_cp t)"

section \<open>The chunking rule of the specification\<close>

text \<open>
  The specification's rule for the chunker, in its words: a sentence end is one of
  \<open>.\<close>, \<open>?\<close>, \<open>!\<close> followed by whitespace; when one occurs within the last 10% of
  a chunk window, the chunk must not end inside a sentence; otherwise the chunk ends at
  \<open>maxChunkSize\<close>. \<open>sentence_end_at text i\<close> says that a sentence ends with the
  character at index \<open>i\<close>. A split at index \<open>e\<close> (the first index of the next chunk)
  is not inside a sentence when it comes right after the terminator or right after the
  whitespace that follows it.
\<close>

definition is_terminator :: "codepoint \<Rightarrow> bool" where
  "is_terminator c = (c = 46 \<or> c = 63 \<or> c = 33)"

definition sentence_end_at :: "str \<Rightarrow> nat \<Rightarrow> bool" where
  "sentence_end_at text i =
     (i + 1 < length text \<and> is_terminator (text ! i) \<and> is_space (text ! (i + 1)))"

definition sentence_end_in_tail :: "str \<Rightarrow> nat \<Rightarrow> nat \<Rightarrow> bool" where
  "sentence_end_in_tail text start n =
     list_ex (sentence_end_at text) [start + n - n div 10..<start + n]"

definition split_at_sentence_end :: "str \<Rightarrow> nat \<Rightarrow> bool" where
  "split_at_sentence_end text e =
     ((1 \<le> e \<and> sentence_end_at text (e - 1)) \<or> (2 \<le> e \<and> sentence_end_at text (e - 2)))"

text \<open>
  \<open>spec_splits text n start chunks\<close>: every chunk of \<open>chunks\<close>, laid out from index
  \<open>start\<close>, that ends before the end of the text ends as the rule says.
\<close>

fun spec_splits :: "str \<Rightarrow> nat \<Rightarrow> nat \<Rightarrow> str list \<Rightarrow> bool" where
  "spec_splits text n start [] = True"
| "spec_splits text n start (c # cs) =
     (let e = start + length c
      in (if e < length text then
            (if sentence_end_in_tail text start n then split_at_sentence_end text e
             else length c = n)
          else True)
         \<and> spec_splits text n e cs)"

section \<open>Services for the examples\<close>

text \<open>
  Services that always answer: parsers that find no text, a store that accepts every
  document and finds nothing, and a chat model whose answer names the number of calls
  made before it (so that two answers to the same question differ).
\<close>

definition example_services :: services where
  "example_services =
     \<lparr>fitz_pages = (\<lambda>b. Inr []),
      docx_paragraphs = (\<lambda>b. Inr []),
      isalnum = ascii_isalnum,
      uuid4 = (\<lambda>k. lit ''id-'' @ str_of_nat k),
      add_documents = (\<lambda>log docs ids. Inr ids),
      similarity_search = (\<lambda>log query k. Inr []),
      chat_client = (\<lambda>log prompt. Inr (lit ''answer '' @ str_of_nat (length log)))\<rparr>"

text \<open>The same services with a vector store whose search raises.\<close>

definition search_down :: services where
  "search_down =
     example_services\<lparr>similarity_search :=
       (\<lambda>log query k. Inl (BackendError (lit ''vector store unavailable'')))\<rparr>"

text \<open>A connection on which two questions have been answered.\<close>

definition asked_twice :: chat_state where
  "asked_twice =
     \<lparr>history_data = [(lit ''Q1'', lit ''first''), (lit ''Q2'', lit ''second'')],
      events = []\<rparr>"

text \<open>A text of two sentences, for the chunker.\<close>

definition fox_text :: str where
  "fox_text = lit ''A quick brown fox jumps over the very lazy dog. It barked loudly.''"

section \<open>Properties of chunk_text\<close>

lemma concat_chunks_from:
  "0 < n \<Longrightarrow> concat (map (\<lambda>i. py_slice t i (i + n)) (py_range i (length t) n)) = drop i t"
proof (induction i "length t" n rule: py_range.induct)
  case (1 i step)
  show ?case
  proof (cases "i < length t")
    case True
    have "take step (drop i t) @ drop (i + step) t = drop i t"
      by (metis add.commute append_take_drop_id drop_drop)
    with True 1 show ?thesis
      by (simp add: py_range.simps [of i] py_slice_def)
  next
    case False
    then show ?thesis by (simp add: py_range.simps [of i])
  qed
qed

lemma py_range_upt:
  "0 < n \<Longrightarrow> py_range i L n = map (\<lambda>k. i + k * n) [0..<(L - i + n - 1) div n]"
proof (induction i L n rule: py_range.induct)
  case (1 i L n)
  show ?case
  proof (cases "i < L")
    case True
    have d: "(L - i + n - 1) div n = Suc ((L - (i + n) + n - 1) div n)"
    proof (cases "i + n \<le> L")
      case True
      define a where "a = L - (i + n) + n - 1"
      have "L - i + n - 1 = a + n" using True 1(2) by (simp add: a_def)
      moreover have "(a + n) div n = Suc (a div n)"
        using \<open>0 < n\<close> by (simp add: div_add_self2)
      ultimately show ?thesis by (simp only: a_def)
    next
      case False
      with True 1(2) have "n \<le> L - i + n - 1" "L - i + n - 1 < 2 * n" by auto
      then have "(L - i + n - 1) div n = 1"
        by (metis One_nat_def div_nat_eqI mult.commute mult_2_right nat_mult_1_right
            numeral_2_eq_2)
      moreover have "(L - (i + n) + n - 1) div n = 0" using False 1(2) by simp
      ultimately show ?thesis by simp
    qed
    have "map (\<lambda>k. i + k * n) [0..<Suc m] = i # map (\<lambda>k. i + n + k * n) [0..<m]" for m
      by (simp add: upt_conv_Cons map_Suc_upt [symmetric] del: upt_Suc)
    with True 1 d show ?thesis
      by (simp add: py_range.simps [of i] del: upt_Suc)
  next
    case False
    then have "(L - i + n - 1) div n = 0" using 1(2) by simp
    with False show ?thesis by (simp add: py_range.simps [of i])
  qed
qed

lemma chunk_text_concat:
  assumes "chunk_text t n = Inr cs" and "0 < n"
  shows "concat cs = t"
  using assms concat_chunks_from [of "nat n" t 0]
  by (auto simp: chunk_text_def)

text \<open>
  Claim C5. Cutting again the concatenation of the chunks of a run, with the same chunk
  size, gives the same chunks (for every text and every chunk size with which the first
  run returns chunks at all, that is every size but zero).
\<close>

theorem chunk_text_rechunk:
  assumes "chunk_text t chunk_size = Inr chunks"
  shows "chunk_text (concat chunks) chunk_size = Inr chunks"
proof (cases "0 < chunk_size")
  case True
  with assms show ?thesis by (simp add: chunk_text_concat)
next
  case False
  with assms have "chunks = []" by (auto simp: chunk_text_def split: if_splits)
  with assms False show ?thesis
    by (auto simp: chunk_text_def py_range.simps [of 0 0] split: if_splits)
qed

theorem chunk_text_rechunk_witness:
  "chunk_text (lit ''abcdefg'') 3 = Inr [lit ''abc'', lit ''def'', lit ''g''] \<and>
   chunk_text (concat [lit ''abc'', lit ''def'', lit ''g'']) 3
     = Inr [lit ''abc'', lit ''def'', lit ''g'']"
proof -
  have h: "chunk_text (lit ''abcdefg'') 3 = Inr [lit ''abc'', lit ''def'', lit ''g'']"
    by code_simp
  from chunk_text_rechunk [OF h] h show ?thesis by simp
qed

text \<open>
  Claim C4, as the specification states it, fails: \<open>chunk_text\<close> cuts the two sentences
  of \<open>fox_text\<close> at index 50, inside the second sentence, although the first sentence
  ends (at index 46, followed by a space) within the last 10% of the window of 50
  characters.
\<close>

theorem chunk_text_splits_sentence:
  "chunk_text fox_text 50
     = Inr [lit ''A quick brown fox jumps over the very lazy dog. It'', lit '' barked loudly.''] \<and>
   sentence_end_in_tail fox_text 0 50 \<and>
   \<not> split_at_sentence_end fox_text 50 \<and>
   \<not> spec_splits fox_text 50 0
       [lit ''A quick brown fox jumps over the very lazy dog. It'', lit '' barked loudly.'']"
  by code_simp

text \<open>
  Claim C4, amended. \<open>chunk_text\<close> never looks at the characters: for a positive chunk
  size it cuts at the multiples of the chunk size and nowhere else. Chunk number \<open>k\<close> is
  \<open>text[k * chunk_size : (k + 1) * chunk_size]\<close>, and there are as many chunks as it
  takes to cover the text.
\<close>

theorem chunk_text_fixed_size:
  assumes "0 < chunk_size"
  shows "chunk_text t chunk_size =
           Inr (map (\<lambda>k. py_slice t (k * nat chunk_size) (k * nat chunk_size + nat chunk_size))
                    [0..<(length t + nat chunk_size - 1) div nat chunk_size])"
  using assms by (simp add: chunk_text_def py_range_upt)

theorem chunk_text_fixed_size_witness:
  "chunk_text fox_text 50 = Inr [py_slice fox_text 0 50, py_slice fox_text 50 100]"
proof -
  have h: "(0::int) < 50" by simp
  have n: "(length fox_text + nat 50 - 1) div nat 50 = Suc (Suc 0)"
    by (simp add: fox_text_def lit_def)
  from chunk_text_fixed_size [OF h, of fox_text] show ?thesis
    unfolding n by simp
qed

section \<open>Properties of the chat loop\<close>

lemma dict_set_keys:
  "map fst (dict_set d k v) = add_key k (map fst d)"
  by (induction d k v rule: dict_set.induct) (auto simp: add_key_def)

lemma dict_set_lookup: "map_of (dict_set d k v) k = Some v"
  by (induction d k v rule: dict_set.induct) auto

lemma dict_set_other: "k' \<noteq> k \<Longrightarrow> map_of (dict_set d k v) k' = map_of d k'"
  by (induction d k v rule: dict_set.induct) auto

lemma chat_turn_history:
  assumes "chat_turn svc st msg = (Inr r, st')"
  shows "history_data st' = dict_set (history_data st) msg r"
  using assms
  by (auto simp: chat_turn_def Let_def split: sum.splits prod.splits)

lemma chat_loop_keys:
  assumes "chat_loop svc st frames = (Inr u, st')"
  shows "map fst (history_data st') = fold add_key frames (map fst (history_data st))"
  using assms
proof (induction frames arbitrary: st)
  case Nil
  then show ?case by simp
next
  case (Cons m ms)
  then obtain r st1 where t: "chat_turn svc st m = (Inr r, st1)"
    and l: "chat_loop svc st1 ms = (Inr u, st')"
    by (auto split: prod.splits sum.splits)
  from Cons.IH [OF l] chat_turn_history [OF t] show ?case
    by (simp add: dict_set_keys)
qed

lemma remdups_snoc: "remdups (xs @ [m]) = remdups (filter (\<lambda>x. x \<noteq> m) xs) @ [m]"
  by (induction xs) auto

lemma fold_add_key:
  "distinct ks \<Longrightarrow>
   fold add_key ms ks = ks @ rev (remdups (rev (filter (\<lambda>m. m \<notin> set ks) ms)))"
proof (induction ms arbitrary: ks)
  case Nil
  then show ?case by simp
next
  case (Cons m ms)
  show ?case
  proof (cases "m \<in> set ks")
    case True
    with Cons show ?thesis by (simp add: add_key_def)
  next
    case False
    then have d: "distinct (ks @ [m])" using Cons.prems by simp
    have f: "filter (\<lambda>x. x \<notin> set (ks @ [m])) ms
               = filter (\<lambda>x. x \<noteq> m) (filter (\<lambda>x. x \<notin> set ks) ms)"
      by (auto intro: filter_cong)
    from False Cons.IH [OF d] show ?thesis
      by (simp add: add_key_def f remdups_snoc rev_filter del: set_append)
  qed
qed

text \<open>
  Claim C1, as the specification states it, fails on its own scenario: with a maximum of
  two turns, the questions Q1, Q2, Q3 leave a history of all three, Q1 included.
\<close>

theorem chat_history_exceeds_two:
  "(case chat example_services [] [lit ''Q1'', lit ''Q2'', lit ''Q3''] of
      (r, st) \<Rightarrow>
        r = Inr () \<and>
        map fst (history_data st) = [lit ''Q1'', lit ''Q2'', lit ''Q3''] \<and>
        \<not> length (history_data st) \<le> 2)"
  by code_simp

text \<open>
  Claim C1, amended. Nothing is ever removed from the history of a connection, and there
  is no maximum: when the client disconnects after the frames \<open>frames\<close>, all of them
  answered, the history holds one entry for each distinct message text, in the order in
  which the texts first arrived. Its length is the number of distinct texts.
\<close>

theorem chat_history_unbounded:
  assumes "chat svc log frames = (Inr u, st)"
  shows "map fst (history_data st) = rev (remdups (rev frames)) \<and>
         length (history_data st) = card (set frames)"
proof -
  from assms have "map fst (history_data st) = fold add_key frames []"
    using chat_loop_keys [of svc "\<lparr>history_data = [], events = log\<rparr>" frames u st]
    by (simp add: chat_def)
  then have k: "map fst (history_data st) = rev (remdups (rev frames))"
    by (simp add: fold_add_key)
  have "length (history_data st) = length (map fst (history_data st))" by simp
  also have "\<dots> = card (set frames)"
    unfolding k by (simp add: length_remdups_card_conv)
  finally show ?thesis using k by simp
qed

theorem chat_history_unbounded_witness:
  "map fst (history_data (snd (chat example_services [] [lit ''Q1'', lit ''Q2'', lit ''Q1''])))
     = [lit ''Q1'', lit ''Q2''] \<and>
   length (history_data (snd (chat example_services [] [lit ''Q1'', lit ''Q2'', lit ''Q1''])))
     = 2"
proof -
  have h: "chat example_services [] [lit ''Q1'', lit ''Q2'', lit ''Q1'']
             = (Inr (), snd (chat example_services [] [lit ''Q1'', lit ''Q2'', lit ''Q1'']))"
    by code_simp
  have "rev (remdups (rev [lit ''Q1'', lit ''Q2'', lit ''Q1''])) = [lit ''Q1'', lit ''Q2'']"
    and "card (set [lit ''Q1'', lit ''Q2'', lit ''Q1'']) = 2"
    by code_simp+
  with chat_history_unbounded [OF h] show ?thesis by (simp only:)
qed

text \<open>
  Claim C3, as the specification states it, fails: when the search of the vector store
  raises, the loop ends with that exception. No completion is asked for, nothing is sent, no
  turn is recorded.
\<close>

theorem chat_search_down_no_turn:
  "chat search_down [] [lit ''hello''] =
     (Inl (BackendError (lit ''vector store unavailable'')),
      \<lparr>history_data = [], events = [SimilaritySearch (lit ''hello'') 2]\<rparr>)"
  by code_simp

text \<open>
  Claim C3, amended. An exception of the search ends the turn and the loop with that
  exception, right after the search: the history and the rest of the state are as before,
  and the log has gained the search and nothing else (no completion, no answer sent).
  Frames that follow are not read.
\<close>

theorem chat_turn_search_fails:
  assumes "similarity_search svc (events st) msg 2 = Inl e"
  shows "chat_turn svc st msg = (Inl e, st\<lparr>events := events st @ [SimilaritySearch msg 2]\<rparr>) \<and>
         chat_loop svc st (msg # rest)
           = (Inl e, st\<lparr>events := events st @ [SimilaritySearch msg 2]\<rparr>)"
  using assms by (simp add: chat_turn_def Let_def)

theorem chat_turn_search_fails_witness:
  "chat_turn search_down \<lparr>history_data = [], events = []\<rparr> (lit ''hello'')
     = (Inl (BackendError (lit ''vector store unavailable'')),
        \<lparr>history_data = [], events = [SimilaritySearch (lit ''hello'') 2]\<rparr>) \<and>
   chat_loop search_down \<lparr>history_data = [], events = []\<rparr> [lit ''hello'', lit ''again'']
     = (Inl (BackendError (lit ''vector store unavailable'')),
        \<lparr>history_data = [], events = [SimilaritySearch (lit ''hello'') 2]\<rparr>)"
proof -
  have h: "similarity_search search_down (events \<lparr>history_data = [], events = []\<rparr>) (lit ''hello'') 2
             = Inl (BackendError (lit ''vector store unavailable''))"
    by (simp add: search_down_def)
  from chat_turn_search_fails [OF h, of "[lit ''again'']"] show ?thesis by simp
qed

text \<open>
  Claim C6, as the specification states it, fails. The code has no maximum prompt length;
  whatever number is taken for it, here 100, a longer prompt is sent to the chat model
  and its answer is returned.
\<close>

theorem llm_chat_chain_long_prompt:
  "100 < length (prompt_of (lit ''hi'') [] []) \<and>
   llm_chat_chain example_services (lit ''hi'') [] [] []
     = (Inr (lit ''answer 0''), [ChatCompletion (prompt_of (lit ''hi'') [] [])]) \<and>
   completion_calls (snd (llm_chat_chain example_services (lit ''hi'') [] [] [])) = 1"
  by code_simp

text \<open>
  Claim C6, amended. \<open>llm_chat_chain\<close> does not test the length of the prompt: for every
  question, context and history it calls the chat model exactly once, with the prompt
  assembled from them, and its result is the model's, answer or exception. The prompt is
  the template's 119 characters and the three texts.
\<close>

theorem llm_chat_chain_calls_backend:
  "llm_chat_chain svc query context history log =
     (chat_client svc log (prompt_of query context history),
      log @ [ChatCompletion (prompt_of query context history)]) \<and>
   completion_calls (snd (llm_chat_chain svc query context history log))
     = completion_calls log + 1 \<and>
   length (prompt_of query context history)
     = 119 + length query + length context + length history"
  by (simp add: llm_chat_chain_def Let_def completion_calls_def is_completion_def
      prompt_of_def lit_def)

text \<open>
  Claim C8. A message whose text is already a key of the history does not add a turn: the
  history keeps its length and the order of its questions, the answer stored for that
  text is the new one, and the answers to the other questions are untouched.
\<close>

theorem chat_turn_repeated_question:
  assumes "chat_turn svc st msg = (Inr response, st')"
    and "msg \<in> set (map fst (history_data st))"
  shows "length (history_data st') = length (history_data st) \<and>
         map fst (history_data st') = map fst (history_data st) \<and>
         map_of (history_data st') msg = Some response \<and>
         (\<forall>q. q \<noteq> msg \<longrightarrow> map_of (history_data st') q = map_of (history_data st) q)"
proof -
  have h: "history_data st' = dict_set (history_data st) msg response"
    using assms(1) by (rule chat_turn_history)
  have k: "map fst (history_data st') = map fst (history_data st)"
    using assms(2) by (simp add: h dict_set_keys add_key_def)
  have "length (map fst (history_data st')) = length (map fst (history_data st))"
    by (simp only: k)
  then show ?thesis using k by (simp add: h dict_set_lookup dict_set_other)
qed

theorem chat_turn_repeated_question_witness:
  "fst (chat_turn example_services asked_twice (lit ''Q1'')) = Inr (lit ''answer 1'') \<and>
   length (history_data (snd (chat_turn example_services asked_twice (lit ''Q1'')))) = 2 \<and>
   map fst (history_data (snd (chat_turn example_services asked_twice (lit ''Q1''))))
     = [lit ''Q1'', lit ''Q2''] \<and>
   map_of (history_data (snd (chat_turn example_services asked_twice (lit ''Q1'')))) (lit ''Q1'')
     = Some (lit ''answer 1'') \<and>
   map_of (history_data (snd (chat_turn example_services asked_twice (lit ''Q1'')))) (lit ''Q2'')
     = Some (lit ''second'')"
proof -
  define st' where "st' = snd (chat_turn example_services asked_twice (lit ''Q1''))"
  have f: "fst (chat_turn example_services asked_twice (lit ''Q1'')) = Inr (lit ''answer 1'')"
    by code_simp
  have h: "chat_turn example_services asked_twice (lit ''Q1'') = (Inr (lit ''answer 1''), st')"
    unfolding st'_def using f by (metis prod.collapse)
  have m: "lit ''Q1'' \<in> set (map fst (history_data asked_twice))"
    by (simp add: asked_twice_def)
  have n: "lit ''Q2'' \<noteq> lit ''Q1''" by (simp add: lit_def)
  have old: "history_data asked_twice = [(lit ''Q1'', lit ''first''), (lit ''Q2'', lit ''second'')]"
    by (simp add: asked_twice_def)
  from chat_turn_repeated_question [OF h m] n f show ?thesis
    unfolding st'_def [symmetric] old by simp
qed

section \<open>Properties of the UTF-8 decoder\<close>

lemma decode1: "b0 < 128 \<Longrightarrow> utf8_decode_from (b0 # bs) = map_option (Cons b0) (utf8_decode_from bs)"
  by simp

lemma decode2:
  "192 \<le> b0 \<Longrightarrow> b0 < 224 \<Longrightarrow> is_cont b1 \<Longrightarrow> 128 \<le> seq2 b0 b1 \<Longrightarrow>
   utf8_decode_from (b0 # b1 # bs) = map_option (Cons (seq2 b0 b1)) (utf8_decode_from bs)"
  by (simp add: Let_def)

lemma decode3:
  "224 \<le> b0 \<Longrightarrow> b0 < 240 \<Longrightarrow> is_cont b1 \<Longrightarrow> is_cont b2 \<Longrightarrow> 2048 \<le> seq3 b0 b1 b2 \<Longrightarrow>
   seq3 b0 b1 b2 < 55296 \<or> 57344 \<le> seq3 b0 b1 b2 \<Longrightarrow>
   utf8_decode_from (b0 # b1 # b2 # bs)
     = map_option (Cons (seq3 b0 b1 b2)) (utf8_decode_from bs)"
  by (simp add: Let_def)

lemma decode4:
  "240 \<le> b0 \<Longrightarrow> b0 < 248 \<Longrightarrow> is_cont b1 \<Longrightarrow> is_cont b2 \<Longrightarrow> is_cont b3 \<Longrightarrow>
   65536 \<le> seq4 b0 b1 b2 b3 \<Longrightarrow> seq4 b0 b1 b2 b3 < 1114112 \<Longrightarrow>
   utf8_decode_from (b0 # b1 # b2 # b3 # bs)
     = map_option (Cons (seq4 b0 b1 b2 b3)) (utf8_decode_from bs)"
  by (simp add: Let_def)

lemma inv1:
  assumes "utf8_decode_from (b0 # r) = Some t" "b0 < 128"
  obtains t' where "utf8_decode_from r = Some t'" "t = b0 # t'"
  using assms by auto

lemma inv_none:
  assumes "utf8_decode_from (b0 # r) = Some t"
  shows "b0 < 128 \<or> (192 \<le> b0 \<and> b0 < 248)"
  using assms by (auto split: if_splits)

lemma inv2:
  assumes "utf8_decode_from (b0 # r) = Some t" "192 \<le> b0" "b0 < 224"
  obtains b1 r' t' where "r = b1 # r'" "is_cont b1" "128 \<le> seq2 b0 b1"
    "utf8_decode_from r' = Some t'" "t = seq2 b0 b1 # t'"
  using assms by (auto simp: Let_def split: list.splits if_splits)

lemma inv3:
  assumes "utf8_decode_from (b0 # r) = Some t" "224 \<le> b0" "b0 < 240"
  obtains b1 b2 r' t' where "r = b1 # b2 # r'" "is_cont b1" "is_cont b2"
    "2048 \<le> seq3 b0 b1 b2" "seq3 b0 b1 b2 < 55296 \<or> 57344 \<le> seq3 b0 b1 b2"
    "utf8_decode_from r' = Some t'" "t = seq3 b0 b1 b2 # t'"
  using assms by (auto simp: Let_def split: list.splits if_splits)

lemma inv4:
  assumes "utf8_decode_from (b0 # r) = Some t" "240 \<le> b0" "b0 < 248"
  obtains b1 b2 b3 r' t' where "r = b1 # b2 # b3 # r'" "is_cont b1" "is_cont b2" "is_cont b3"
    "65536 \<le> seq4 b0 b1 b2 b3" "seq4 b0 b1 b2 b3 < 1114112"
    "utf8_decode_from r' = Some t'" "t = seq4 b0 b1 b2 b3 # t'"
  using assms by (auto simp: Let_def split: list.splits if_splits)

lemma comb3: "(q::nat) = a * 64 + b \<Longrightarrow> c = q * 64 + d \<Longrightarrow> c = a * 4096 + b * 64 + d"
  by (simp add: algebra_simps)

lemma comb4: "(q::nat) = a * 64 + b \<Longrightarrow> c = q * 4096 + r \<Longrightarrow> c = a * 262144 + b * 4096 + r"
  by (simp add: algebra_simps)

lemma d4096: "(c::nat) div 4096 = c div 64 div 64"
  by (simp add: div_mult2_eq [symmetric])

lemma d262144: "(c::nat) div 262144 = c div 4096 div 64"
  by (simp add: div_mult2_eq [symmetric])

lemma split3n: "(c::nat) = c div 4096 * 4096 + c div 64 mod 64 * 64 + c mod 64"
proof -
  have "c div 64 = c div 4096 * 64 + c div 64 mod 64" unfolding d4096 by simp
  moreover have "c = c div 64 * 64 + c mod 64" by simp
  ultimately show ?thesis by (rule comb3)
qed

lemma split4n:
  "(c::nat) = c div 262144 * 262144 + c div 4096 mod 64 * 4096 + c div 64 mod 64 * 64 + c mod 64"
proof -
  have "c div 4096 = c div 262144 * 64 + c div 4096 mod 64" unfolding d262144 by simp
  moreover have "c = c div 4096 * 4096 + (c div 64 mod 64 * 64 + c mod 64)"
    using split3n [of c] by simp
  ultimately have "c = c div 262144 * 262144 + c div 4096 mod 64 * 4096
                       + (c div 64 mod 64 * 64 + c mod 64)"
    by (rule comb4)
  then show ?thesis by simp
qed

lemma digits2:
  assumes "d < 64" and "(c::nat) = a * 64 + d"
  shows "c div 64 = a \<and> c mod 64 = d"
  using assms by simp

lemma digits3:
  assumes "b < 64" and "d < 64" and "(c::nat) = a * 4096 + b * 64 + d"
  shows "c div 4096 = a \<and> c div 64 mod 64 = b \<and> c mod 64 = d"
proof -
  have q: "c = (a * 64 + b) * 64 + d" using assms(3) by (simp add: algebra_simps)
  have 1: "c div 64 = a * 64 + b" and 2: "c mod 64 = d"
    using digits2 [OF assms(2) q] by simp_all
  have "c div 4096 = (a * 64 + b) div 64" unfolding d4096 1 ..
  also have "\<dots> = a" using assms(1) by simp
  finally show ?thesis using 1 2 assms(1) by simp
qed

lemma digits4:
  assumes "b < 64" and "d < 64" and "e < 64"
    and "(c::nat) = a * 262144 + b * 4096 + d * 64 + e"
  shows "c div 262144 = a \<and> c div 4096 mod 64 = b \<and> c div 64 mod 64 = d \<and> c mod 64 = e"
proof -
  have q: "c = (a * 64 + b) * 4096 + d * 64 + e" using assms(4) by (simp add: algebra_simps)
  from digits3 [OF assms(2,3) q]
  have 1: "c div 4096 = a * 64 + b" and 2: "c div 64 mod 64 = d" and 3: "c mod 64 = e"
    by simp_all
  have "c div 262144 = (a * 64 + b) div 64" unfolding d262144 1 ..
  also have "\<dots> = a" using assms(1) by simp
  finally show ?thesis using 1 2 3 assms(1) by simp
qed

lemma cont_mod: "is_cont (128 + n mod 64)"
  by (simp add: is_cont_def)

lemma seq2_encode: "seq2 (192 + c div 64) (128 + c mod 64) = c"
  by (simp add: seq2_def)

lemma seq3_encode: "seq3 (224 + c div 4096) (128 + c div 64 mod 64) (128 + c mod 64) = c"
  unfolding seq3_def add_diff_cancel_left' by (rule split3n [symmetric])

lemma seq4_encode:
  "seq4 (240 + c div 262144) (128 + c div 4096 mod 64) (128 + c div 64 mod 64) (128 + c mod 64) = c"
  unfolding seq4_def add_diff_cancel_left' by (rule split4n [symmetric])

lemma decode_encode_cp:
  assumes "is_scalar c"
  shows "utf8_decode_from (utf8_encode_cp c @ bs) = map_option (Cons c) (utf8_decode_from bs)"
proof -
  consider "c < 128" | "128 \<le> c" "c < 2048" | "2048 \<le> c" "c < 65536"
    | "65536 \<le> c" "c < 1114112"
    using assms unfolding is_scalar_def by linarith
  then show ?thesis
  proof cases
    case 1
    then show ?thesis by (simp add: utf8_encode_cp_def)
  next
    case 2
    have "c div 64 < 32" using 2(2) by (simp add: less_mult_imp_div_less)
    then have "utf8_decode_from ((192 + c div 64) # (128 + c mod 64) # bs)
                 = map_option (Cons c) (utf8_decode_from bs)"
      using 2(1) decode2 [of "192 + c div 64" "128 + c mod 64" bs]
      by (simp add: seq2_encode cont_mod del: utf8_decode_from.simps)
    with 2 show ?thesis by (simp add: utf8_encode_cp_def del: utf8_decode_from.simps)
  next
    case 3
    have "c div 4096 < 16" using 3(2) by (simp add: less_mult_imp_div_less)
    moreover have "c < 55296 \<or> 57344 \<le> c" using assms 3 by (auto simp: is_scalar_def)
    ultimately have "utf8_decode_from ((224 + c div 4096) # (128 + c div 64 mod 64)
                        # (128 + c mod 64) # bs)
                 = map_option (Cons c) (utf8_decode_from bs)"
      using 3(1) decode3 [of "224 + c div 4096" "128 + c div 64 mod 64" "128 + c mod 64" bs]
      by (simp add: seq3_encode cont_mod del: utf8_decode_from.simps)
    with 3 show ?thesis by (simp add: utf8_encode_cp_def del: utf8_decode_from.simps)
  next
    case 4
    have "c div 262144 < 8" using 4(2) by (simp add: less_mult_imp_div_less)
    then have "utf8_decode_from ((240 + c div 262144) # (128 + c div 4096 mod 64)
                        # (128 + c div 64 mod 64) # (128 + c mod 64) # bs)
                 = map_option (Cons c) (utf8_decode_from bs)"
      using 4 decode4 [of "240 + c div 262144" "128 + c div 4096 mod 64"
          "128 + c div 64 mod 64" "128 + c mod 64" bs]
      by (simp add: seq4_encode cont_mod del: utf8_decode_from.simps)
    with 4 show ?thesis by (simp add: utf8_encode_cp_def del: utf8_decode_from.simps)
  qed
qed

lemma encode_Cons: "utf8_encode (c # t) = utf8_encode_cp c @ utf8_encode t"
  by (simp add: utf8_encode_def)

lemma decode_encode:
  "list_all is_scalar t \<Longrightarrow> utf8_decode_from (utf8_encode t) = Some t"
proof (induction t)
  case Nil
  then show ?case by (simp add: utf8_encode_def)
next
  case (Cons c t)
  then have "utf8_decode_from (utf8_encode t) = Some t" "is_scalar c" by simp_all
  then show ?case
    using decode_encode_cp [of c "utf8_encode t"]
    by (simp add: encode_Cons del: utf8_decode_from.simps)
qed

lemma encode2:
  assumes "192 \<le> b0" "b0 < 224" "is_cont b1" "128 \<le> seq2 b0 b1"
  shows "utf8_encode_cp (seq2 b0 b1) = [b0, b1] \<and> is_scalar (seq2 b0 b1)"
proof -
  define c where "c = seq2 b0 b1"
  have c: "c = (b0 - 192) * 64 + (b1 - 128)" by (simp add: c_def seq2_def)
  have d: "b1 - 128 < 64" and a: "b0 - 192 < 32"
    using assms(1-3) by (auto simp: is_cont_def)
  from digits2 [OF d c] have 1: "c div 64 = b0 - 192" "c mod 64 = b1 - 128" by simp_all
  have lt: "c < 2048" unfolding c using a d by linarith
  have "utf8_encode_cp c = [192 + c div 64, 128 + c mod 64]"
    using assms(4) lt by (simp add: utf8_encode_cp_def c_def [symmetric])
  moreover have "192 + c div 64 = b0" unfolding 1 using assms(1) by simp
  moreover have "128 + c mod 64 = b1" unfolding 1 using assms(3) by (simp add: is_cont_def)
  moreover have "is_scalar c" using lt by (simp add: is_scalar_def)
  ultimately show ?thesis by (simp add: c_def [symmetric])
qed

lemma encode3:
  assumes "224 \<le> b0" "b0 < 240" "is_cont b1" "is_cont b2" "2048 \<le> seq3 b0 b1 b2"
    "seq3 b0 b1 b2 < 55296 \<or> 57344 \<le> seq3 b0 b1 b2"
  shows "utf8_encode_cp (seq3 b0 b1 b2) = [b0, b1, b2] \<and> is_scalar (seq3 b0 b1 b2)"
proof -
  define c where "c = seq3 b0 b1 b2"
  have c: "c = (b0 - 224) * 4096 + (b1 - 128) * 64 + (b2 - 128)" by (simp add: c_def seq3_def)
  have b: "b1 - 128 < 64" and d: "b2 - 128 < 64" and a: "b0 - 224 < 16"
    using assms(1-4) by (auto simp: is_cont_def)
  from digits3 [OF b d c]
  have 1: "c div 4096 = b0 - 224" "c div 64 mod 64 = b1 - 128" "c mod 64 = b2 - 128" by simp_all
  have lt: "c < 65536" unfolding c using a b d by linarith
  have lo: "2048 \<le> c" and sc: "c < 55296 \<or> 57344 \<le> c" using assms(5,6) by (simp_all add: c_def)
  have "utf8_encode_cp c = [224 + c div 4096, 128 + c div 64 mod 64, 128 + c mod 64]"
    using lo lt by (simp add: utf8_encode_cp_def)
  moreover have "224 + c div 4096 = b0" unfolding 1 using assms(1) by simp
  moreover have "128 + c div 64 mod 64 = b1" unfolding 1 using assms(3) by (simp add: is_cont_def)
  moreover have "128 + c mod 64 = b2" unfolding 1 using assms(4) by (simp add: is_cont_def)
  moreover have "is_scalar c" using lt sc by (simp add: is_scalar_def)
  ultimately show ?thesis by (simp add: c_def [symmetric])
qed

lemma encode4:
  assumes "240 \<le> b0" "b0 < 248" "is_cont b1" "is_cont b2" "is_cont b3"
    "65536 \<le> seq4 b0 b1 b2 b3" "seq4 b0 b1 b2 b3 < 1114112"
  shows "utf8_encode_cp (seq4 b0 b1 b2 b3) = [b0, b1, b2, b3] \<and> is_scalar (seq4 b0 b1 b2 b3)"
proof -
  define c where "c = seq4 b0 b1 b2 b3"
  have c: "c = (b0 - 240) * 262144 + (b1 - 128) * 4096 + (b2 - 128) * 64 + (b3 - 128)"
    by (simp add: c_def seq4_def)
  have b: "b1 - 128 < 64" and d: "b2 - 128 < 64" and e: "b3 - 128 < 64"
    using assms(3-5) by (auto simp: is_cont_def)
  from digits4 [OF b d e c]
  have 1: "c div 262144 = b0 - 240" "c div 4096 mod 64 = b1 - 128"
    "c div 64 mod 64 = b2 - 128" "c mod 64 = b3 - 128" by simp_all
  have lo: "65536 \<le> c" and hi: "c < 1114112" using assms(6,7) by (simp_all add: c_def)
  have "utf8_encode_cp c = [240 + c div 262144, 128 + c div 4096 mod 64,
          128 + c div 64 mod 64, 128 + c mod 64]"
    using lo by (simp add: utf8_encode_cp_def)
  moreover have "240 + c div 262144 = b0" unfolding 1 using assms(1) by simp
  moreover have "128 + c div 4096 mod 64 = b1" unfolding 1 using assms(3) by (simp add: is_cont_def)
  moreover have "128 + c div 64 mod 64 = b2" unfolding 1 using assms(4) by (simp add: is_cont_def)
  moreover have "128 + c mod 64 = b3" unfolding 1 using assms(5) by (simp add: is_cont_def)
  moreover have "is_scalar c" using lo hi by (simp add: is_scalar_def)
  ultimately show ?thesis by (simp add: c_def [symmetric])
qed

lemma encode_decode:
  "utf8_decode_from bs = Some t \<Longrightarrow> list_all is_scalar t \<and> utf8_encode t = bs"
proof (induction "length bs" arbitrary: bs t rule: less_induct)
  case less
  show ?case
  proof (cases bs)
    case Nil
    with less.prems show ?thesis by (simp add: utf8_encode_def)
  next
    case (Cons b0 r)
    note d = less.prems [unfolded Cons]
    from inv_none [OF d]
    consider (one) "b0 < 128" | (two) "192 \<le> b0" "b0 < 224" | (three) "224 \<le> b0" "b0 < 240"
      | (four) "240 \<le> b0" "b0 < 248"
      by linarith
    then show ?thesis
    proof cases
      case one
      from inv1 [OF d one] obtain t' where t: "utf8_decode_from r = Some t'" "t = b0 # t'" .
      have "list_all is_scalar t' \<and> utf8_encode t' = r"
        using less.hyps [of r t'] t(1) Cons by simp
      moreover have "utf8_encode_cp b0 = [b0] \<and> is_scalar b0"
        using one by (simp add: utf8_encode_cp_def is_scalar_def)
      ultimately show ?thesis by (simp add: Cons t(2) encode_Cons)
    next
      case two
      from inv2 [OF d two] obtain b1 r' t' where r: "r = b1 # r'" and c: "is_cont b1"
        "128 \<le> seq2 b0 b1" and t: "utf8_decode_from r' = Some t'" "t = seq2 b0 b1 # t'"
        by blast
      have "list_all is_scalar t' \<and> utf8_encode t' = r'"
        using less.hyps [of r' t'] t(1) Cons r by simp
      moreover note encode2 [OF two c]
      ultimately show ?thesis by (simp add: Cons r t(2) encode_Cons)
    next
      case three
      from inv3 [OF d three] obtain b1 b2 r' t' where r: "r = b1 # b2 # r'"
        and c: "is_cont b1" "is_cont b2" "2048 \<le> seq3 b0 b1 b2"
        "seq3 b0 b1 b2 < 55296 \<or> 57344 \<le> seq3 b0 b1 b2"
        and t: "utf8_decode_from r' = Some t'" "t = seq3 b0 b1 b2 # t'" by blast
      have "list_all is_scalar t' \<and> utf8_encode t' = r'"
        using less.hyps [of r' t'] t(1) Cons r by simp
      moreover note encode3 [OF three c]
      ultimately show ?thesis by (simp add: Cons r t(2) encode_Cons)
    next
      case four
      from inv4 [OF d four] obtain b1 b2 b3 r' t' where r: "r = b1 # b2 # b3 # r'"
        and c: "is_cont b1" "is_cont b2" "is_cont b3"
        "65536 \<le> seq4 b0 b1 b2 b3" "seq4 b0 b1 b2 b3 < 1114112"
        and t: "utf8_decode_from r' = Some t'" "t = seq4 b0 b1 b2 b3 # t'" by blast
      have "list_all is_scalar t' \<and> utf8_encode t' = r'"
        using less.hyps [of r' t'] t(1) Cons r by simp
      moreover note encode4 [OF four c]
      ultimately show ?thesis by (simp add: Cons r t(2) encode_Cons)
    qed
  qed
qed

lemma utf8_decode_from_iff:
  "utf8_decode_from bs = Some t \<longleftrightarrow> list_all is_scalar t \<and> utf8_encode t = bs"
  using encode_decode decode_encode by blast

section \<open>Properties of upload_file\<close>

lemma endswith_last:
  assumes "endswith s suffix" "suffix \<noteq> []"
  shows "last s = last suffix"
proof -
  from assms(1) have "s = take (length s - length suffix) s @ suffix"
    by (metis append_take_drop_id endswith_def)
  then show ?thesis using assms(2) by (metis last_appendR)
qed

lemma txt_not_pdf_docx:
  assumes "endswith filename (lit ''.txt'')"
  shows "\<not> endswith filename (lit ''.pdf'') \<and> \<not> endswith filename (lit ''.docx'')"
proof -
  have "last filename = 116" using endswith_last [OF assms] by (simp add: lit_def)
  moreover have "last filename = 102" if "endswith filename (lit ''.pdf'')"
    using endswith_last [OF that] by (simp add: lit_def)
  moreover have "last filename = 120" if "endswith filename (lit ''.docx'')"
    using endswith_last [OF that] by (simp add: lit_def)
  ultimately show ?thesis by auto
qed

lemma docx_not_pdf:
  assumes "endswith filename (lit ''.docx'')"
  shows "\<not> endswith filename (lit ''.pdf'')"
proof -
  have "last filename = 120" using endswith_last [OF assms] by (simp add: lit_def)
  moreover have "last filename = 102" if "endswith filename (lit ''.pdf'')"
    using endswith_last [OF that] by (simp add: lit_def)
  ultimately show ?thesis by auto
qed

lemma store_text_empty:
  "store_text example_services filename [] log
     = (Inr \<lparr>message = lit ''File uploaded, content extracted, and stored in Pinecone successfully!'',
            stored_chunks_ids = []\<rparr>, log @ [AddDocuments [] []])"
  by (simp add: store_text_def preprocess_text_def str_strip_def re_sub_punct_def
      chunk_text_def default_chunk_size_def py_range.simps example_services_def)

lemma store_text_hi:
  "store_text example_services (lit ''a.txt'') (lit ''hi'') log
     = (Inr \<lparr>message = lit ''File uploaded, content extracted, and stored in Pinecone successfully!'',
            stored_chunks_ids = [lit ''id-0'']\<rparr>,
        log @ [AddDocuments [\<lparr>page_content = lit ''hi'', source = lit ''a.txt''\<rparr>] [lit ''id-0'']])"
  by (simp add: store_text_def preprocess_text_def str_strip_def re_sub_punct_def
      chunk_text_def default_chunk_size_def py_range.simps py_slice_def example_services_def
      lit_def is_space_def is_word_def ascii_isalnum_def str_of_nat.simps Let_def)


text \<open>
  Claim C7. The format of an upload is the ending of its file name. A name that ends with
  none of \<open>.pdf\<close>, \<open>.docx\<close>, \<open>.txt\<close> makes \<open>upload_file\<close> fail with
  \<open>HTTPException\<close> 400, "Unsupported file type", and the log is as before: no
  extractor has run and nothing was stored. For each of the three endings
  \<open>upload_file\<close> runs the extractor of that format, and only that one, on the content:
  an exception of the extractor ends the upload, and otherwise the upload goes on
  (preprocessing, chunking, storing) with the text that this extractor returned.
\<close>

theorem upload_file_by_format:
  "(\<not> endswith filename (lit ''.pdf'') \<and> \<not> endswith filename (lit ''.docx'') \<and>
    \<not> endswith filename (lit ''.txt'') \<longrightarrow>
      upload_file svc filename file_content log
        = (Inl (HTTPException 400 (lit ''Unsupported file type'')), log)) \<and>
   (endswith filename (lit ''.pdf'') \<longrightarrow>
      upload_file svc filename file_content log
        = (case extract_pdf_text (fitz_pages svc) file_content of
             Inl e \<Rightarrow> (Inl e, log @ [ExtractPdf file_content])
           | Inr extracted_text \<Rightarrow>
               store_text svc filename extracted_text (log @ [ExtractPdf file_content]))) \<and>
   (endswith filename (lit ''.docx'') \<longrightarrow>
      upload_file svc filename file_content log
        = (case extract_docx_text (docx_paragraphs svc) file_content of
             Inl e \<Rightarrow> (Inl e, log @ [ExtractDocx file_content])
           | Inr extracted_text \<Rightarrow>
               store_text svc filename extracted_text (log @ [ExtractDocx file_content]))) \<and>
   (endswith filename (lit ''.txt'') \<longrightarrow>
      upload_file svc filename file_content log
        = (case extract_txt_text file_content of
             Inl e \<Rightarrow> (Inl e, log @ [ExtractTxt file_content])
           | Inr extracted_text \<Rightarrow>
               store_text svc filename extracted_text (log @ [ExtractTxt file_content])))"
  using txt_not_pdf_docx [of filename] docx_not_pdf [of filename]
  by (auto simp: upload_file_def extract_by_name_def split: sum.splits)

theorem upload_file_by_format_witness:
  "upload_file example_services (lit ''notes.md'') [0x23, 0x20, 0x41] []
     = (Inl (HTTPException 400 (lit ''Unsupported file type'')), []) \<and>
   upload_file example_services (lit ''a.pdf'') [0x25, 0x50] []
     = (Inr \<lparr>message = lit ''File uploaded, content extracted, and stored in Pinecone successfully!'',
            stored_chunks_ids = []\<rparr>,
        [ExtractPdf [0x25, 0x50], AddDocuments [] []]) \<and>
   upload_file example_services (lit ''a.docx'') [0x50, 0x4B] []
     = (Inr \<lparr>message = lit ''File uploaded, content extracted, and stored in Pinecone successfully!'',
            stored_chunks_ids = []\<rparr>,
        [ExtractDocx [0x50, 0x4B], AddDocuments [] []]) \<and>
   upload_file example_services (lit ''a.txt'') [0x68, 0x69] []
     = (Inr \<lparr>message = lit ''File uploaded, content extracted, and stored in Pinecone successfully!'',
            stored_chunks_ids = [lit ''id-0'']\<rparr>,
        [ExtractTxt [0x68, 0x69],
         AddDocuments [\<lparr>page_content = lit ''hi'', source = lit ''a.txt''\<rparr>] [lit ''id-0'']])"
proof -
  have 1: "\<not> endswith (lit ''notes.md'') (lit ''.pdf'') \<and>
           \<not> endswith (lit ''notes.md'') (lit ''.docx'') \<and>
           \<not> endswith (lit ''notes.md'') (lit ''.txt'')"
    by (simp add: endswith_def lit_def)
  have 2: "endswith (lit ''a.pdf'') (lit ''.pdf'')"
    and 3: "endswith (lit ''a.docx'') (lit ''.docx'')"
    and 4: "endswith (lit ''a.txt'') (lit ''.txt'')"
    by (simp_all add: endswith_def lit_def)
  have 5: "extract_pdf_text (fitz_pages example_services) [0x25, 0x50] = Inr []"
    and 6: "extract_docx_text (docx_paragraphs example_services) [0x50, 0x4B] = Inr []"
    by (simp_all add: extract_pdf_text_def extract_docx_text_def example_services_def)
  have 7: "extract_txt_text [0x68, 0x69] = Inr (lit ''hi'')"
    by (simp add: extract_txt_text_def utf8_decode_def lit_def)
  from upload_file_by_format [of "lit ''notes.md''" example_services "[0x23, 0x20, 0x41]" "[]"] 1
    upload_file_by_format [of "lit ''a.pdf''" example_services "[0x25, 0x50]" "[]"] 2
    upload_file_by_format [of "lit ''a.docx''" example_services "[0x50, 0x4B]" "[]"] 3
    upload_file_by_format [of "lit ''a.txt''" example_services "[0x68, 0x69]" "[]"] 4
  show ?thesis by (simp add: 5 6 7 store_text_empty store_text_hi)
qed

text \<open>
  Claim C10. For a file whose name ends with \<open>.txt\<close>, extraction gives the text
  \<open>t\<close> exactly when the content is the UTF-8 encoding of \<open>t\<close>, a sequence of
  scalar values: so it succeeds exactly when the content is valid UTF-8, and then the
  upload goes on with the decoded text. When extraction fails, its exception is
  \<open>UnicodeDecodeError\<close>, and that is how the upload ends, after the extractor and
  before anything is stored: not with the \<open>HTTPException\<close> of an unsupported format.
\<close>

theorem txt_upload_utf8:
  assumes "endswith filename (lit ''.txt'')"
  shows "(extract_txt_text file_content = Inr t \<longleftrightarrow>
            list_all is_scalar t \<and> utf8_encode t = map unat file_content) \<and>
         (extract_txt_text file_content = Inr t \<longrightarrow>
            upload_file svc filename file_content log
              = store_text svc filename t (log @ [ExtractTxt file_content])) \<and>
         (extract_txt_text file_content = Inl e \<longrightarrow>
            e = UnicodeDecodeError \<and>
            upload_file svc filename file_content log
              = (Inl UnicodeDecodeError, log @ [ExtractTxt file_content]))"
proof -
  have a: "extract_txt_text file_content = Inr t \<longleftrightarrow>
             list_all is_scalar t \<and> utf8_encode t = map unat file_content"
    using utf8_decode_from_iff [of "map unat file_content" t]
    by (auto simp: extract_txt_text_def utf8_decode_def split: option.splits)
  have x: "extract_by_name svc filename file_content log
             = (extract_txt_text file_content, log @ [ExtractTxt file_content])"
    using assms txt_not_pdf_docx [OF assms] by (simp add: extract_by_name_def)
  have b: "upload_file svc filename file_content log
             = store_text svc filename t (log @ [ExtractTxt file_content])"
    if "extract_txt_text file_content = Inr t"
    using that x by (simp add: upload_file_def)
  have c: "e = UnicodeDecodeError \<and> upload_file svc filename file_content log
             = (Inl UnicodeDecodeError, log @ [ExtractTxt file_content])"
    if "extract_txt_text file_content = Inl e"
    using that x by (auto simp: upload_file_def extract_txt_text_def split: option.splits)
  from a b c show ?thesis by blast
qed

theorem txt_upload_utf8_witness:
  "extract_txt_text [0x68, 0xC3, 0xA9] = Inr [104, 233] \<and>
   upload_file example_services (lit ''a.txt'') [0x68, 0xC3, 0x28] []
     = (Inl UnicodeDecodeError, [ExtractTxt [0x68, 0xC3, 0x28]])"
proof -
  have n: "endswith (lit ''a.txt'') (lit ''.txt'')" by (simp add: endswith_def lit_def)
  have u: "map unat [0x68, 0xC3, 0xA9 :: 8 word] = [104, 195, 169]"
    and u': "map unat [0x68, 0xC3, 0x28 :: 8 word] = [104, 195, 40]"
    by simp_all
  have v: "list_all is_scalar [104, 233] \<and>
           utf8_encode [104, 233] = map unat [0x68, 0xC3, 0xA9 :: 8 word]"
    unfolding u by (simp add: is_scalar_def utf8_encode_def utf8_encode_cp_def)
  have "utf8_decode_from [104, 195, 40] = None"
    by (simp add: is_cont_def)
  then have i: "extract_txt_text [0x68, 0xC3, 0x28] = Inl UnicodeDecodeError"
    by (simp add: extract_txt_text_def utf8_decode_def u')
  from txt_upload_utf8 [OF n, where file_content = "[0x68, 0xC3, 0xA9]" and t = "[104, 233]"] v
  have "extract_txt_text [0x68, 0xC3, 0xA9] = Inr [104, 233]" by blast
  moreover from txt_upload_utf8 [OF n, where file_content = "[0x68, 0xC3, 0x28]"
      and e = UnicodeDecodeError and svc = example_services and log = "[]"] i
  have "upload_file example_services (lit ''a.txt'') [0x68, 0xC3, 0x28] []
     = (Inl UnicodeDecodeError, [ExtractTxt [0x68, 0xC3, 0x28]])" by simp
  ultimately show ?thesis by simp
qed

section \<open>Properties of preprocess_text\<close>

lemma space_32: "is_space 32"
  by (simp add: is_space_def)

lemma set_re_sub_spaces: "set (re_sub_spaces t) \<subseteq> {c \<in> set t. \<not> is_space c} \<union> {32}"
proof (induction t rule: re_sub_spaces.induct)
  case 1
  then show ?case by simp
next
  case (2 c cs)
  have "set (dropWhile is_space cs) \<subseteq> set cs" by (rule set_dropWhileD [THEN subsetI])
  with 2 show ?case by auto
qed

lemma no_double_re_sub_spaces_aux:
  "no_double (re_sub_spaces t) \<and> (t \<noteq> [] \<and> \<not> is_space (hd t) \<longrightarrow> re_sub_spaces t \<noteq> [] \<and> \<not> is_space (hd (re_sub_spaces t)))"
proof (induction t rule: re_sub_spaces.induct)
  case 1
  then show ?case by simp
next
  case (2 c cs)
  show ?case
  proof (cases "is_space c")
    case True
    let ?r = "dropWhile is_space cs"
    have h: "?r \<noteq> [] \<longrightarrow> \<not> is_space (hd ?r)" by (simp add: hd_dropWhile)
    from 2(1) [OF True] h have nd: "no_double (re_sub_spaces ?r)"
      and hd: "?r \<noteq> [] \<longrightarrow> re_sub_spaces ?r \<noteq> [] \<and> \<not> is_space (hd (re_sub_spaces ?r))"
      by auto
    have "no_double (32 # re_sub_spaces ?r)"
    proof (cases "re_sub_spaces ?r")
      case Nil
      then show ?thesis by simp
    next
      case (Cons d r)
      then have "?r \<noteq> []" by (metis list.distinct(1) re_sub_spaces.simps(1))
      with hd Cons have "\<not> is_space d" by simp
      with nd Cons show ?thesis by simp
    qed
    with True show ?thesis by simp
  next
    case False
    from 2(2) [OF False] have nd: "no_double (re_sub_spaces cs)" by simp
    have "no_double (c # re_sub_spaces cs)"
      using nd False by (cases "re_sub_spaces cs") simp_all
    with False show ?thesis by simp
  qed
qed

lemma no_double_re_sub_spaces: "no_double (re_sub_spaces t)"
  using no_double_re_sub_spaces_aux by blast

lemma re_sub_spaces_fixed:
  "no_double t \<Longrightarrow> \<forall>c\<in>set t. is_space c \<longrightarrow> c = 32 \<Longrightarrow> re_sub_spaces t = t"
proof (induction t rule: no_double.induct)
  case (3 c d r)
  then have r: "re_sub_spaces (d # r) = d # r" by simp
  show ?case
  proof (cases "is_space c")
    case True
    with 3 have c: "c = 32" and d: "\<not> is_space d" by auto
    have "re_sub_spaces (c # d # r) = 32 # re_sub_spaces (dropWhile is_space (d # r))"
      using True by simp
    also have "dropWhile is_space (d # r) = d # r" using d by simp
    finally show ?thesis using r c by simp
  next
    case False
    then have "re_sub_spaces (c # d # r) = c # re_sub_spaces (d # r)" by simp
    with r show ?thesis by simp
  qed
next
  case 1
  then show ?case by simp
next
  case (2 c)
  then show ?case by auto
qed

lemma no_double_append: "no_double (xs @ ys) \<Longrightarrow> no_double xs \<and> no_double ys"
proof (induction xs rule: no_double.induct)
  case 1
  then show ?case by simp
next
  case (2 c)
  then show ?case by (cases ys) simp_all
next
  case (3 c d r)
  then show ?case by simp
qed

lemma strip_decompose:
  "\<exists>pre post. t = pre @ str_strip t @ post"
proof -
  let ?u = "dropWhile is_space t"
  have "t = takeWhile is_space t @ ?u" by simp
  moreover have "rev ?u = takeWhile is_space (rev ?u) @ dropWhile is_space (rev ?u)" by simp
  then have "?u = rev (dropWhile is_space (rev ?u)) @ rev (takeWhile is_space (rev ?u))"
    by (metis rev_append rev_rev_ident)
  ultimately have "t = takeWhile is_space t @ str_strip t @ rev (takeWhile is_space (rev ?u))"
    by (simp add: str_strip_def)
  then show ?thesis by blast
qed

lemma no_double_strip: "no_double t \<Longrightarrow> no_double (str_strip t)"
  using strip_decompose [of t] no_double_append by metis

lemma set_strip: "set (str_strip t) \<subseteq> set t"
  using strip_decompose [of t] by (metis Un_iff set_append subsetI)

lemma strip_idem: "str_strip (str_strip t) = str_strip t"
proof -
  define u where "u = dropWhile is_space t"
  define v where "v = rev (dropWhile is_space (rev u))"
  have v: "str_strip t = v" by (simp add: str_strip_def u_def v_def)
  have hu: "u \<noteq> [] \<longrightarrow> \<not> is_space (hd u)" by (simp add: u_def hd_dropWhile)
  have "u = v @ rev (takeWhile is_space (rev u))"
    unfolding v_def by (metis rev_append rev_rev_ident takeWhile_dropWhile_id)
  then have "v \<noteq> [] \<longrightarrow> hd v = hd u" by (metis hd_append2)
  moreover have "v \<noteq> [] \<longrightarrow> u \<noteq> []" by (auto simp: v_def)
  ultimately have "v \<noteq> [] \<longrightarrow> \<not> is_space (hd v)" using hu by auto
  then have d: "dropWhile is_space v = v" by (cases v) auto
  have "rev (dropWhile is_space (rev v)) = v"
    unfolding v_def by simp
  with d show ?thesis unfolding v by (simp add: str_strip_def)
qed

lemma ws_normal:
  fixes t defines "w \<equiv> str_strip (re_sub_spaces t)"
  shows "str_strip (re_sub_spaces w) = w"
    and "set w \<subseteq> {c \<in> set t. \<not> is_space c} \<union> {32}"
proof -
  have s: "set w \<subseteq> set (re_sub_spaces t)" unfolding w_def by (rule set_strip)
  with set_re_sub_spaces [of t]
  show sub: "set w \<subseteq> {c \<in> set t. \<not> is_space c} \<union> {32}" by blast
  have "no_double w" unfolding w_def by (rule no_double_strip [OF no_double_re_sub_spaces])
  moreover have "\<forall>c\<in>set w. is_space c \<longrightarrow> c = 32" using sub by auto
  ultimately have "re_sub_spaces w = w" by (rule re_sub_spaces_fixed)
  then show "str_strip (re_sub_spaces w) = w" by (simp add: w_def strip_idem)
qed

lemma re_sub_punct_fixed:
  "\<forall>c\<in>set u. is_word alnum c \<or> is_space c \<Longrightarrow> re_sub_punct alnum u = u"
  by (simp add: re_sub_punct_def)

lemma preprocess_text_no_punct:
  assumes "\<forall>c\<in>set t. is_word alnum c \<or> is_space c"
  shows "preprocess_text alnum t = str_strip (re_sub_spaces t)"
proof -
  have "\<forall>c\<in>set (str_strip (re_sub_spaces t)). is_word alnum c \<or> is_space c"
    using ws_normal(2) [of t] assms space_32 by auto
  then show ?thesis by (simp add: preprocess_text_def re_sub_punct_fixed)
qed

lemma preprocess_text_kept:
  "\<forall>c\<in>set (preprocess_text alnum t). is_word alnum c \<or> is_space c"
  by (simp add: preprocess_text_def re_sub_punct_def)

lemma preprocess_text_idem_no_punct:
  assumes "\<forall>c\<in>set t. is_word alnum c \<or> is_space c"
  shows "preprocess_text alnum (preprocess_text alnum t) = preprocess_text alnum t"
proof -
  let ?w = "str_strip (re_sub_spaces t)"
  have 1: "preprocess_text alnum t = ?w" using assms by (rule preprocess_text_no_punct)
  have "\<forall>c\<in>set ?w. is_word alnum c \<or> is_space c"
    using ws_normal(2) [of t] assms space_32 by auto
  then have "preprocess_text alnum ?w = str_strip (re_sub_spaces ?w)"
    by (rule preprocess_text_no_punct)
  also have "\<dots> = ?w" by (rule ws_normal(1))
  finally show ?thesis by (simp add: 1)
qed

text \<open>
  Claim C9, as stated, fails: deleting the full stop of \<open>a . b\<close> leaves the two spaces
  around it side by side, and a second application collapses them.
\<close>

theorem preprocess_text_not_idempotent:
  "preprocess_text ascii_isalnum (lit ''a . b'') = lit ''a  b'' \<and>
   preprocess_text ascii_isalnum (preprocess_text ascii_isalnum (lit ''a . b'')) = lit ''a b'' \<and>
   preprocess_text ascii_isalnum (preprocess_text ascii_isalnum (lit ''a . b''))
     \<noteq> preprocess_text ascii_isalnum (lit ''a . b'')"
  by (simp add: preprocess_text_def lit_def str_strip_def re_sub_punct_def is_space_def
      is_word_def ascii_isalnum_def)

text \<open>
  Claim C9, amended. Preprocessing is idempotent on every text in which it has nothing to
  delete (every character is a word character or whitespace). On any text, the second
  application only tidies the spaces that the deletions of the first left behind, and
  from then on the result does not change: three applications give what two give.
\<close>

theorem preprocess_text_stable:
  "((\<forall>c\<in>set t. is_word alnum c \<or> is_space c) \<longrightarrow>
      preprocess_text alnum (preprocess_text alnum t) = preprocess_text alnum t) \<and>
   preprocess_text alnum (preprocess_text alnum (preprocess_text alnum t))
     = preprocess_text alnum (preprocess_text alnum t)"
  using preprocess_text_idem_no_punct [of t alnum]
    preprocess_text_idem_no_punct [OF preprocess_text_kept, of alnum t]
  by blast

theorem preprocess_text_stable_witness:
  "preprocess_text ascii_isalnum (lit ''  Hello   world\<newline>'') = lit ''Hello world'' \<and>
   preprocess_text ascii_isalnum (preprocess_text ascii_isalnum (lit ''  Hello   world\<newline>''))
     = lit ''Hello world''"
proof -
  have a: "\<forall>c\<in>set (lit ''  Hello   world\<newline>''). is_word ascii_isalnum c \<or> is_space c"
    by (simp add: lit_def is_space_def is_word_def ascii_isalnum_def)
  have b: "preprocess_text ascii_isalnum (lit ''  Hello   world\<newline>'') = lit ''Hello world''"
    by (simp add: preprocess_text_def lit_def str_strip_def re_sub_punct_def is_space_def
      is_word_def ascii_isalnum_def)
  from preprocess_text_stable [of "lit ''  Hello   world\<newline>''" ascii_isalnum] a
  have "preprocess_text ascii_isalnum (preprocess_text ascii_isalnum (lit ''  Hello   world\<newline>''))
          = preprocess_text ascii_isalnum (lit ''  Hello   world\<newline>'')"
    by blast
  with b show ?thesis by simp
qed

end
